theory Spec2Isabelle
  imports Complex_Main "HOL-Library.Word"
begin

unbundle bit_operations_syntax

section \<open>Data model\<close>

text \<open>
  The sketches keep the polynomial \<open>f(x) = a x^4 + b x^3 + c x^2 + d x + e\<close> in five
  module-level variables \<open>a\<close>, \<open>b\<close>, \<open>c\<close>, \<open>d\<close>, \<open>e\<close>. The functions only read them,
  so the model passes them as a record. In the integer sketches they are \<open>uint32_t\<close>,
  in the floating-point sketches \<open>double\<close>.
\<close>

type_synonym u32 = "32 word"

record 'a coeffs =
  coef_a :: 'a
  coef_b :: 'a
  coef_c :: 'a
  coef_d :: 'a
  coef_e :: 'a

text \<open>The initial values of the globals: \<open>a = 1, b = 2, c = 3, d = 4, e = 5\<close>.\<close>

definition fixture :: "u32 coeffs" where
  "fixture = \<lparr>coef_a = 1, coef_b = 2, coef_c = 3, coef_d = 4, coef_e = 5\<rparr>"

section \<open>Shift-and-add multiplication (arithmetic accumulation)\<close>

text \<open>
  \<open>multiplyNLFSR\<close> of the corrected sketch (\<open>crooked3.md\<close>, and the second program
  of \<open>unnamed/part_001\<close>):
  \<^verbatim>\<open>
  uint32_t result = 0; uint32_t current = value;
  while (multiplier > 0) {
    if (multiplier & 1) { result += current; }
    current <<= 1;
    multiplier >>= 1;
  }
  return result;
  \<close>
  The loop is a tail-recursive function of the three variables it updates.
\<close>

function multiplyNLFSR_loop :: "u32 \<Rightarrow> u32 \<Rightarrow> u32 \<Rightarrow> u32" where
  "multiplyNLFSR_loop result current multiplier =
     (if multiplier > 0
      then multiplyNLFSR_loop
             (if multiplier AND 1 \<noteq> 0 then result + current else result)
             (push_bit 1 current)
             (drop_bit 1 multiplier)
      else result)"
  by pat_completeness auto
termination
  by (relation "measure (\<lambda>(result, current, multiplier). unat multiplier)")
     (auto simp: drop_bit_eq_div unat_div word_less_nat_alt)

declare multiplyNLFSR_loop.simps [simp del]

definition multiplyNLFSR :: "u32 \<Rightarrow> u32 \<Rightarrow> u32" where
  "multiplyNLFSR value multiplier = multiplyNLFSR_loop 0 value multiplier"

section \<open>Integer evaluation with arithmetic accumulation\<close>

text \<open>
  \<open>evaluatePolynomial\<close>, \<open>evaluateAntiderivative\<close> and \<open>integratePolynomial\<close> of the
  corrected sketch (the second program of \<open>unnamed/part_001\<close>). Every power of \<open>x\<close> is a chain of \<open>multiplyNLFSR\<close> calls; the terms
  are summed with \<open>+\<close>; the antiderivative multiplies first and divides the product
  (\<open>uint32_t\<close> division truncates); the integral is the \<open>uint32_t\<close> difference
  \<open>F_x_end - F_x_start\<close>.
\<close>

definition evaluatePolynomial :: "u32 coeffs \<Rightarrow> u32 \<Rightarrow> u32" where
  "evaluatePolynomial p x =
     (let term1 = multiplyNLFSR (coef_a p)
                    (multiplyNLFSR x (multiplyNLFSR x (multiplyNLFSR x x)));
          term2 = multiplyNLFSR (coef_b p)
                    (multiplyNLFSR x (multiplyNLFSR x (multiplyNLFSR x 1)));
          term3 = multiplyNLFSR (coef_c p) (multiplyNLFSR x (multiplyNLFSR x 1));
          term4 = multiplyNLFSR (coef_d p) x;
          term5 = coef_e p
      in term1 + term2 + term3 + term4 + term5)"

definition evaluateAntiderivative :: "u32 coeffs \<Rightarrow> u32 \<Rightarrow> u32" where
  "evaluateAntiderivative p x =
     (let term1 = multiplyNLFSR (coef_a p)
                    (multiplyNLFSR x (multiplyNLFSR x (multiplyNLFSR x
                      (multiplyNLFSR x (multiplyNLFSR x 1))))) div 5;
          term2 = multiplyNLFSR (coef_b p)
                    (multiplyNLFSR x (multiplyNLFSR x (multiplyNLFSR x
                      (multiplyNLFSR x 1)))) div 4;
          term3 = multiplyNLFSR (coef_c p)
                    (multiplyNLFSR x (multiplyNLFSR x (multiplyNLFSR x 1))) div 3;
          term4 = multiplyNLFSR (coef_d p) (multiplyNLFSR x (multiplyNLFSR x 1)) div 2;
          term5 = multiplyNLFSR (coef_e p) x
      in term1 + term2 + term3 + term4 + term5)"

definition integratePolynomial :: "u32 coeffs \<Rightarrow> u32 \<Rightarrow> u32 \<Rightarrow> u32" where
  "integratePolynomial p x_start x_end =
     (let F_x_start = evaluateAntiderivative p x_start;
          F_x_end = evaluateAntiderivative p x_end
      in F_x_end - F_x_start)"

section \<open>Integer evaluation with XOR accumulation\<close>

text \<open>
  The earlier sketch (the second program of \<open>trapezoid.ino\<close>, and the first and last
  programs of \<open>unnamed/part_001\<close>): the same loop with \<open>result ^= current\<close>, the antiderivative
  dividing the coefficient before the multiplication (\<open>a / 5\<close>), the terms and the two
  antiderivative values combined with \<open>^\<close>. The source names this multiplication
  \<open>multiplyNLFSR\<close> as well; here it carries the suffix \<open>_xor\<close>.
\<close>

function multiplyNLFSR_xor_loop :: "u32 \<Rightarrow> u32 \<Rightarrow> u32 \<Rightarrow> u32" where
  "multiplyNLFSR_xor_loop result current multiplier =
     (if multiplier > 0
      then multiplyNLFSR_xor_loop
             (if multiplier AND 1 \<noteq> 0 then result XOR current else result)
             (push_bit 1 current)
             (drop_bit 1 multiplier)
      else result)"
  by pat_completeness auto
termination
  by (relation "measure (\<lambda>(result, current, multiplier). unat multiplier)")
     (auto simp: drop_bit_eq_div unat_div word_less_nat_alt)

declare multiplyNLFSR_xor_loop.simps [simp del]

definition multiplyNLFSR_xor :: "u32 \<Rightarrow> u32 \<Rightarrow> u32" where
  "multiplyNLFSR_xor value multiplier = multiplyNLFSR_xor_loop 0 value multiplier"

definition antiderivativeNLFSR :: "u32 coeffs \<Rightarrow> u32 \<Rightarrow> u32" where
  "antiderivativeNLFSR p x =
     (let term1 = multiplyNLFSR_xor (coef_a p div 5)
                    (multiplyNLFSR_xor x (multiplyNLFSR_xor x (multiplyNLFSR_xor x
                      (multiplyNLFSR_xor x (multiplyNLFSR_xor x 1)))));
          term2 = multiplyNLFSR_xor (coef_b p div 4)
                    (multiplyNLFSR_xor x (multiplyNLFSR_xor x (multiplyNLFSR_xor x
                      (multiplyNLFSR_xor x 1))));
          term3 = multiplyNLFSR_xor (coef_c p div 3)
                    (multiplyNLFSR_xor x (multiplyNLFSR_xor x (multiplyNLFSR_xor x 1)));
          term4 = multiplyNLFSR_xor (coef_d p div 2)
                    (multiplyNLFSR_xor x (multiplyNLFSR_xor x 1));
          term5 = multiplyNLFSR_xor (coef_e p) x
      in term1 XOR term2 XOR term3 XOR term4 XOR term5)"

definition symbolicIntegrationNLFSR :: "u32 coeffs \<Rightarrow> u32 \<Rightarrow> u32 \<Rightarrow> u32" where
  "symbolicIntegrationNLFSR p x_start x_end =
     (let F_x_start = antiderivativeNLFSR p x_start;
          F_x_end = antiderivativeNLFSR p x_end
      in F_x_end XOR F_x_start)"

text \<open>
  The polynomial \<open>c x^4\<close>: its first antiderivative term is the scaling of the
  coefficient \<open>c\<close> by the divisor 5, all other terms are 0.
\<close>

definition quartic :: "u32 \<Rightarrow> u32 coeffs" where
  "quartic c = \<lparr>coef_a = c, coef_b = 0, coef_c = 0, coef_d = 0, coef_e = 0\<rparr>"

section \<open>Iteration counts\<close>

text \<open>
  The number of times the body of the multiplication loop runs, counted on the same
  guard and the same updates as the loop itself, and the total over the
  \<open>multiplyNLFSR\<close> calls of one evaluation (each call with the arguments the
  evaluation passes to it).
\<close>

function multiplyNLFSR_loop_iters :: "u32 \<Rightarrow> u32 \<Rightarrow> u32 \<Rightarrow> nat" where
  "multiplyNLFSR_loop_iters result current multiplier =
     (if multiplier > 0
      then Suc (multiplyNLFSR_loop_iters
             (if multiplier AND 1 \<noteq> 0 then result + current else result)
             (push_bit 1 current)
             (drop_bit 1 multiplier))
      else 0)"
  by pat_completeness auto
termination
  by (relation "measure (\<lambda>(result, current, multiplier). unat multiplier)")
     (auto simp: drop_bit_eq_div unat_div word_less_nat_alt)

declare multiplyNLFSR_loop_iters.simps [simp del]

definition multiplyNLFSR_iters :: "u32 \<Rightarrow> u32 \<Rightarrow> nat" where
  "multiplyNLFSR_iters value multiplier = multiplyNLFSR_loop_iters 0 value multiplier"

function multiplyNLFSR_xor_loop_iters :: "u32 \<Rightarrow> u32 \<Rightarrow> u32 \<Rightarrow> nat" where
  "multiplyNLFSR_xor_loop_iters result current multiplier =
     (if multiplier > 0
      then Suc (multiplyNLFSR_xor_loop_iters
             (if multiplier AND 1 \<noteq> 0 then result XOR current else result)
             (push_bit 1 current)
             (drop_bit 1 multiplier))
      else 0)"
  by pat_completeness auto
termination
  by (relation "measure (\<lambda>(result, current, multiplier). unat multiplier)")
     (auto simp: drop_bit_eq_div unat_div word_less_nat_alt)

declare multiplyNLFSR_xor_loop_iters.simps [simp del]

definition multiplyNLFSR_xor_iters :: "u32 \<Rightarrow> u32 \<Rightarrow> nat" where
  "multiplyNLFSR_xor_iters value multiplier = multiplyNLFSR_xor_loop_iters 0 value multiplier"

text \<open>\<open>evaluatePolynomial\<close> calls \<open>multiplyNLFSR\<close> 4 + 4 + 3 + 1 = 12 times.\<close>

definition evaluatePolynomial_iters :: "u32 coeffs \<Rightarrow> u32 \<Rightarrow> nat" where
  "evaluatePolynomial_iters p x =
     (let q1 = multiplyNLFSR x x; q2 = multiplyNLFSR x q1; q3 = multiplyNLFSR x q2;
          r1 = multiplyNLFSR x 1; r2 = multiplyNLFSR x r1; r3 = multiplyNLFSR x r2
      in (multiplyNLFSR_iters x x + multiplyNLFSR_iters x q1 + multiplyNLFSR_iters x q2
            + multiplyNLFSR_iters (coef_a p) q3)
       + (multiplyNLFSR_iters x 1 + multiplyNLFSR_iters x r1 + multiplyNLFSR_iters x r2
            + multiplyNLFSR_iters (coef_b p) r3)
       + (multiplyNLFSR_iters x 1 + multiplyNLFSR_iters x r1
            + multiplyNLFSR_iters (coef_c p) r2)
       + multiplyNLFSR_iters (coef_d p) x)"

text \<open>\<open>evaluateAntiderivative\<close> calls it 6 + 5 + 4 + 3 + 1 = 19 times.\<close>

definition evaluateAntiderivative_iters :: "u32 coeffs \<Rightarrow> u32 \<Rightarrow> nat" where
  "evaluateAntiderivative_iters p x =
     (let r1 = multiplyNLFSR x 1; r2 = multiplyNLFSR x r1; r3 = multiplyNLFSR x r2;
          r4 = multiplyNLFSR x r3; r5 = multiplyNLFSR x r4
      in (multiplyNLFSR_iters x 1 + multiplyNLFSR_iters x r1 + multiplyNLFSR_iters x r2
            + multiplyNLFSR_iters x r3 + multiplyNLFSR_iters x r4
            + multiplyNLFSR_iters (coef_a p) r5)
       + (multiplyNLFSR_iters x 1 + multiplyNLFSR_iters x r1 + multiplyNLFSR_iters x r2
            + multiplyNLFSR_iters x r3 + multiplyNLFSR_iters (coef_b p) r4)
       + (multiplyNLFSR_iters x 1 + multiplyNLFSR_iters x r1 + multiplyNLFSR_iters x r2
            + multiplyNLFSR_iters (coef_c p) r3)
       + (multiplyNLFSR_iters x 1 + multiplyNLFSR_iters x r1
            + multiplyNLFSR_iters (coef_d p) r2)
       + multiplyNLFSR_iters (coef_e p) x)"

definition integratePolynomial_iters :: "u32 coeffs \<Rightarrow> u32 \<Rightarrow> u32 \<Rightarrow> nat" where
  "integratePolynomial_iters p x_start x_end =
     evaluateAntiderivative_iters p x_start + evaluateAntiderivative_iters p x_end"

text \<open>The XOR sketch has the same call structure: 19 calls for each antiderivative.\<close>

definition antiderivativeNLFSR_iters :: "u32 coeffs \<Rightarrow> u32 \<Rightarrow> nat" where
  "antiderivativeNLFSR_iters p x =
     (let r1 = multiplyNLFSR_xor x 1; r2 = multiplyNLFSR_xor x r1;
          r3 = multiplyNLFSR_xor x r2; r4 = multiplyNLFSR_xor x r3;
          r5 = multiplyNLFSR_xor x r4
      in (multiplyNLFSR_xor_iters x 1 + multiplyNLFSR_xor_iters x r1
            + multiplyNLFSR_xor_iters x r2 + multiplyNLFSR_xor_iters x r3
            + multiplyNLFSR_xor_iters x r4 + multiplyNLFSR_xor_iters (coef_a p div 5) r5)
       + (multiplyNLFSR_xor_iters x 1 + multiplyNLFSR_xor_iters x r1
            + multiplyNLFSR_xor_iters x r2 + multiplyNLFSR_xor_iters x r3
            + multiplyNLFSR_xor_iters (coef_b p div 4) r4)
       + (multiplyNLFSR_xor_iters x 1 + multiplyNLFSR_xor_iters x r1
            + multiplyNLFSR_xor_iters x r2 + multiplyNLFSR_xor_iters (coef_c p div 3) r3)
       + (multiplyNLFSR_xor_iters x 1 + multiplyNLFSR_xor_iters x r1
            + multiplyNLFSR_xor_iters (coef_d p div 2) r2)
       + multiplyNLFSR_xor_iters (coef_e p) x)"

definition symbolicIntegrationNLFSR_iters :: "u32 coeffs \<Rightarrow> u32 \<Rightarrow> u32 \<Rightarrow> nat" where
  "symbolicIntegrationNLFSR_iters p x_start x_end =
     antiderivativeNLFSR_iters p x_start + antiderivativeNLFSR_iters p x_end"

section \<open>Floating-point sketches\<close>

text \<open>
  The reference sketches (\<open>symbolic_derivative.ino\<close>, the first program of
  \<open>trapezoid.ino\<close>, \<open>unnamed/part_000\<close>, \<open>unnamed/part_002\<close>) compute in \<open>double\<close>. Their functions are modelled over an
  arbitrary arithmetic: a record of the operations the code uses, every expression
  built in the order C evaluates it (\<open>+\<close> associates to the left). \<open>fpow\<close> stands for
  \<open>pow(x, k)\<close> with a literal exponent, \<open>fnum\<close> for the conversion of an \<open>int\<close> and for
  the literals \<open>0.0\<close>, \<open>2.0\<close>, \<open>5.0\<close>. No law of arithmetic is assumed of the
  operations, so what holds for every such record holds for IEEE doubles as well.
\<close>

record 'a arith =
  fadd :: "'a \<Rightarrow> 'a \<Rightarrow> 'a"
  fsub :: "'a \<Rightarrow> 'a \<Rightarrow> 'a"
  fmul :: "'a \<Rightarrow> 'a \<Rightarrow> 'a"
  fdiv :: "'a \<Rightarrow> 'a \<Rightarrow> 'a"
  fpow :: "'a \<Rightarrow> nat \<Rightarrow> 'a"
  fnum :: "int \<Rightarrow> 'a"

text \<open>Exact arithmetic on the reals: the doubles without rounding.\<close>

definition exact :: "real arith" where
  "exact = \<lparr>fadd = (+), fsub = (-), fmul = (*), fdiv = (/), fpow = (^), fnum = of_int\<rparr>"

text \<open>The globals \<open>a = 1.0, b = 2.0, c = 3.0, d = 4.0, e = 5.0\<close> and \<open>num_intervals = 1000\<close>.\<close>

definition fixture_double :: "'a arith \<Rightarrow> 'a coeffs" where
  "fixture_double A =
     \<lparr>coef_a = fnum A 1, coef_b = fnum A 2, coef_c = fnum A 3, coef_d = fnum A 4,
      coef_e = fnum A 5\<rparr>"

definition default_num_intervals :: int where
  "default_num_intervals = 1000"

text \<open>\<open>polynomial\<close>: \<open>a * pow(x, 4) + b * pow(x, 3) + c * pow(x, 2) + d * x + e\<close>.\<close>

definition polynomial :: "'a arith \<Rightarrow> 'a coeffs \<Rightarrow> 'a \<Rightarrow> 'a" where
  "polynomial A p x =
     fadd A (fadd A (fadd A (fadd A
       (fmul A (coef_a p) (fpow A x 4))
       (fmul A (coef_b p) (fpow A x 3)))
       (fmul A (coef_c p) (fpow A x 2)))
       (fmul A (coef_d p) x))
       (coef_e p)"

text \<open>
  \<open>trapezoidalIntegration\<close>. Its loop
  \<^verbatim>\<open>
  for (int i = 1; i < num_intervals; i++) {
    double x = x_start + i * h;
    integral += polynomial(x);
  }
  \<close>
  is a recursive function of the counter and the accumulator. The counter stays below
  \<open>num_intervals\<close>, so \<open>i++\<close> never overflows and \<open>int\<close> is modelled by the integers.
\<close>

function trapezoid_loop ::
  "'a arith \<Rightarrow> 'a coeffs \<Rightarrow> 'a \<Rightarrow> 'a \<Rightarrow> int \<Rightarrow> int \<Rightarrow> 'a \<Rightarrow> 'a" where
  "trapezoid_loop A p x_start h num_intervals i integral =
     (if i < num_intervals
      then trapezoid_loop A p x_start h num_intervals (i + 1)
             (let x = fadd A x_start (fmul A (fnum A i) h)
              in fadd A integral (polynomial A p x))
      else integral)"
  by pat_completeness auto
termination
  by (relation "measure (\<lambda>(A, p, x_start, h, num_intervals, i, integral).
        nat (num_intervals - i))") auto

declare trapezoid_loop.simps [simp del]

definition trapezoidalIntegration :: "'a arith \<Rightarrow> 'a coeffs \<Rightarrow> 'a \<Rightarrow> 'a \<Rightarrow> int \<Rightarrow> 'a" where
  "trapezoidalIntegration A p x_start x_end num_intervals =
     (let h = fdiv A (fsub A x_end x_start) (fnum A num_intervals);
          integral0 = fnum A 0;
          integral1 = fadd A integral0 (fdiv A (polynomial A p x_start) (fnum A 2));
          integral2 = fadd A integral1 (fdiv A (polynomial A p x_end) (fnum A 2));
          integral3 = trapezoid_loop A p x_start h num_intervals 1 integral2
      in fmul A integral3 h)"

text \<open>\<open>polynomialAntiderivative\<close> and \<open>symbolicIntegration\<close> of the symbolic sketch.\<close>

definition polynomialAntiderivative :: "'a arith \<Rightarrow> 'a coeffs \<Rightarrow> 'a \<Rightarrow> 'a" where
  "polynomialAntiderivative A p x =
     (let term1 = fmul A (fdiv A (coef_a p) (fnum A 5)) (fpow A x 5);
          term2 = fmul A (fdiv A (coef_b p) (fnum A 4)) (fpow A x 4);
          term3 = fmul A (fdiv A (coef_c p) (fnum A 3)) (fpow A x 3);
          term4 = fmul A (fdiv A (coef_d p) (fnum A 2)) (fpow A x 2);
          term5 = fmul A (coef_e p) x
      in fadd A (fadd A (fadd A (fadd A term1 term2) term3) term4) term5)"

definition symbolicIntegration :: "'a arith \<Rightarrow> 'a coeffs \<Rightarrow> 'a \<Rightarrow> 'a \<Rightarrow> 'a" where
  "symbolicIntegration A p x_start x_end =
     (let F_x_start = polynomialAntiderivative A p x_start;
          F_x_end = polynomialAntiderivative A p x_end
      in fsub A F_x_end F_x_start)"

text \<open>
  \<open>antiderivativeNLFSR\<close> and \<open>symbolicIntegrationNLFSR\<close> of the sketch that keeps the
  doubles and takes the shift-register names. The integer sketch uses the same two
  names; these carry the suffix \<open>_double\<close>.
\<close>

definition antiderivativeNLFSR_double :: "'a arith \<Rightarrow> 'a coeffs \<Rightarrow> 'a \<Rightarrow> 'a" where
  "antiderivativeNLFSR_double A p x =
     (let term1 = fmul A (fdiv A (coef_a p) (fnum A 5)) (fpow A x 5);
          term2 = fmul A (fdiv A (coef_b p) (fnum A 4)) (fpow A x 4);
          term3 = fmul A (fdiv A (coef_c p) (fnum A 3)) (fpow A x 3);
          term4 = fmul A (fdiv A (coef_d p) (fnum A 2)) (fpow A x 2);
          term5 = fmul A (coef_e p) x
      in fadd A (fadd A (fadd A (fadd A term1 term2) term3) term4) term5)"

definition symbolicIntegrationNLFSR_double :: "'a arith \<Rightarrow> 'a coeffs \<Rightarrow> 'a \<Rightarrow> 'a \<Rightarrow> 'a" where
  "symbolicIntegrationNLFSR_double A p x_start x_end =
     (let F_x_start = antiderivativeNLFSR_double A p x_start;
          F_x_end = antiderivativeNLFSR_double A p x_end
      in fsub A F_x_end F_x_start)"

section \<open>Rounding\<close>

text \<open>
  What is assumed of an arithmetic where a value of the doubles is to be bounded.
  \<open>val\<close> reads a finite number as a real and is \<open>None\<close> on infinities and NaN. On
  finite operands whose exact result is 0 or lies between \<open>10^-10\<close> and \<open>10^10\<close> in
  magnitude, every operation returns a finite number within the relative error \<open>eps\<close>
  of the exact result; integers up to \<open>2^31\<close> convert exactly. IEEE double operations
  round to nearest, so they are within \<open>2^-53\<close> in this range (no overflow, no
  underflow), and \<open>pow\<close> is within a few units in the last place: the doubles satisfy
  the assumption with the bound \<open>2^-40\<close> used below.
\<close>

definition rounding_bound :: real where
  "rounding_bound = 1 / 2 ^ 40"

definition in_range :: "real \<Rightarrow> bool" where
  "in_range r \<longleftrightarrow> r = 0 \<or> (1 / 10000000000 \<le> \<bar>r\<bar> \<and> \<bar>r\<bar> \<le> 10000000000)"

definition rounds_within :: "real \<Rightarrow> 'a arith \<Rightarrow> ('a \<Rightarrow> real option) \<Rightarrow> bool" where
  "rounds_within eps A val \<longleftrightarrow>
     (\<forall>i. \<bar>i\<bar> \<le> 2 ^ 31 \<longrightarrow> val (fnum A i) = Some (of_int i))
   \<and> (\<forall>x y a b. val x = Some a \<and> val y = Some b \<and> in_range (a + b) \<longrightarrow>
         (\<exists>c. val (fadd A x y) = Some c \<and> \<bar>c - (a + b)\<bar> \<le> eps * \<bar>a + b\<bar>))
   \<and> (\<forall>x y a b. val x = Some a \<and> val y = Some b \<and> in_range (a - b) \<longrightarrow>
         (\<exists>c. val (fsub A x y) = Some c \<and> \<bar>c - (a - b)\<bar> \<le> eps * \<bar>a - b\<bar>))
   \<and> (\<forall>x y a b. val x = Some a \<and> val y = Some b \<and> in_range (a * b) \<longrightarrow>
         (\<exists>c. val (fmul A x y) = Some c \<and> \<bar>c - a * b\<bar> \<le> eps * \<bar>a * b\<bar>))
   \<and> (\<forall>x y a b. val x = Some a \<and> val y = Some b \<and> b \<noteq> 0 \<and> in_range (a / b) \<longrightarrow>
         (\<exists>c. val (fdiv A x y) = Some c \<and> \<bar>c - a / b\<bar> \<le> eps * \<bar>a / b\<bar>))
   \<and> (\<forall>x k a. val x = Some a \<and> in_range (a ^ k) \<longrightarrow>
         (\<exists>c. val (fpow A x k) = Some c \<and> \<bar>c - a ^ k\<bar> \<le> eps * \<bar>a ^ k\<bar>))"

text \<open>
  An arithmetic on the reals that is not exact: every operation returns its exact result
  enlarged by the whole relative error allowed.
\<close>

definition skewed :: "real arith" where
  "skewed =
     \<lparr>fadd = (\<lambda>x y. (x + y) * (1 + rounding_bound)),
      fsub = (\<lambda>x y. (x - y) * (1 + rounding_bound)),
      fmul = (\<lambda>x y. (x * y) * (1 + rounding_bound)),
      fdiv = (\<lambda>x y. (x / y) * (1 + rounding_bound)),
      fpow = (\<lambda>x k. (x ^ k) * (1 + rounding_bound)),
      fnum = of_int\<rparr>"

text \<open>
  Bookkeeping for the error analysis. \<open>near val k x r\<close>: the number \<open>x\<close> is finite and
  its value lies between \<open>r (1 - u)^k\<close> and \<open>r (1 + u)^k\<close>, for the exact value
  \<open>r \<ge> 0\<close> and the bound \<open>u\<close>, as after \<open>k\<close> roundings. \<open>ok\<close> and \<open>rng\<close> are the ranges
  of the exact values met on the fixture, \<open>fixture_poly\<close> is its polynomial on the reals.
\<close>

definition near :: "('a \<Rightarrow> real option) \<Rightarrow> nat \<Rightarrow> 'a \<Rightarrow> real \<Rightarrow> bool" where
  "near val k x r \<longleftrightarrow>
     0 \<le> r \<and> (\<exists>y. val x = Some y \<and> r * (1 - rounding_bound) ^ k \<le> y
                    \<and> y \<le> r * (1 + rounding_bound) ^ k)"

definition ok :: "real \<Rightarrow> bool" where
  "ok r \<longleftrightarrow> r = 0 \<or> (1 / 1000000000 \<le> r \<and> r \<le> 1000000000)"

definition rng :: "real \<Rightarrow> bool" where
  "rng r \<longleftrightarrow> r = 0 \<or> (1 / 100 \<le> r \<and> r \<le> 10)"

definition fixture_poly :: "real \<Rightarrow> real" where
  "fixture_poly r = r ^ 4 + 2 * r ^ 3 + 3 * r ^ 2 + 4 * r + 5"

section \<open>The shift-and-add loop multiplies\<close>

text \<open>
  Invariant of the loop: \<open>result + current * multiplier\<close> does not change. An odd
  multiplier gives \<open>current\<close> to the result, and \<open>2 * current * (multiplier div 2)\<close> is
  what remains; all of it modulo \<open>2^32\<close>, as the \<open>uint32_t\<close> operations are.
\<close>

lemma multiplyNLFSR_loop_eq: "multiplyNLFSR_loop r c m = r + c * m"
proof (induction r c m rule: multiplyNLFSR_loop.induct)
  case (1 result current multiplier)
  show ?case
  proof (cases "multiplier > 0")
    case False
    then show ?thesis
      by (simp add: multiplyNLFSR_loop.simps word_greater_zero_iff)
  next
    case True
    have dec: "multiplier = 2 * drop_bit 1 multiplier + (multiplier AND 1)"
      by (simp add: and_one_eq drop_bit_eq_div mult_div_mod_eq)
    have bit: "multiplier AND 1 = 0 \<or> multiplier AND 1 = 1"
      by (simp add: and_one_eq mod_2_eq_odd)
    have step: "multiplyNLFSR_loop result current multiplier =
          (if multiplier AND 1 \<noteq> 0 then result + current else result)
            + push_bit 1 current * drop_bit 1 multiplier"
      using True "1.IH" by (subst multiplyNLFSR_loop.simps) simp
    have "result + current * multiplier =
          result + current * (multiplier AND 1) + push_bit 1 current * drop_bit 1 multiplier"
      by (subst dec) (simp add: algebra_simps)
    with step bit show ?thesis by auto
  qed
qed

lemma multiplyNLFSR_eq_times: "multiplyNLFSR p q = p * q"
  by (simp add: multiplyNLFSR_def multiplyNLFSR_loop_eq)

lemma evaluatePolynomial_eq:
  "evaluatePolynomial p x =
     coef_a p * x ^ 4 + coef_b p * x ^ 3 + coef_c p * x ^ 2 + coef_d p * x + coef_e p"
  by (simp add: evaluatePolynomial_def multiplyNLFSR_eq_times power4_eq_xxxx power3_eq_cube
      power2_eq_square algebra_simps)

lemma evaluateAntiderivative_eq:
  "evaluateAntiderivative p x =
     (coef_a p * x ^ 5) div 5 + (coef_b p * x ^ 4) div 4 + (coef_c p * x ^ 3) div 3
       + (coef_d p * x ^ 2) div 2 + coef_e p * x"
  by (simp add: evaluateAntiderivative_def multiplyNLFSR_eq_times numeral_eq_Suc algebra_simps)

text \<open>
  C1. Whenever the product of \<open>p\<close> and \<open>q\<close> fits in 32 bits, \<open>multiplyNLFSR p q\<close> is that
  product; \<open>multiplyNLFSR x 0 = 0\<close> and \<open>multiplyNLFSR x 1 = x\<close> for every \<open>x\<close>.
\<close>

theorem multiplyNLFSR_exact:
  "(unat p * unat q < 2 ^ 32 \<longrightarrow> unat (multiplyNLFSR p q) = unat p * unat q)
   \<and> multiplyNLFSR x 0 = 0 \<and> multiplyNLFSR x 1 = x"
  by (simp add: multiplyNLFSR_eq_times unat_word_ariths)

theorem multiplyNLFSR_exact_witness:
  "unat (1234 :: u32) * unat (5678 :: u32) < 2 ^ 32
   \<and> unat (multiplyNLFSR 1234 5678) = 7006652
   \<and> multiplyNLFSR 77 0 = 0 \<and> multiplyNLFSR 77 1 = 77"
  using multiplyNLFSR_exact [of 1234 5678 77] by simp

section \<open>Polynomial evaluation with arithmetic accumulation\<close>

text \<open>
  C4. When the value \<open>a x^4 + b x^3 + c x^2 + d x + e\<close> fits in 32 bits (then every
  term of it does), \<open>evaluatePolynomial\<close> returns exactly that value.
\<close>

theorem evaluatePolynomial_exact:
  assumes "unat (coef_a p) * unat x ^ 4 + unat (coef_b p) * unat x ^ 3
             + unat (coef_c p) * unat x ^ 2 + unat (coef_d p) * unat x + unat (coef_e p)
           < 2 ^ 32"
  shows "unat (evaluatePolynomial p x) =
           unat (coef_a p) * unat x ^ 4 + unat (coef_b p) * unat x ^ 3
             + unat (coef_c p) * unat x ^ 2 + unat (coef_d p) * unat x + unat (coef_e p)"
proof -
  let ?n = "unat (coef_a p) * unat x ^ 4 + unat (coef_b p) * unat x ^ 3
             + unat (coef_c p) * unat x ^ 2 + unat (coef_d p) * unat x + unat (coef_e p)"
  have "evaluatePolynomial p x = (of_nat ?n :: u32)"
    by (simp add: evaluatePolynomial_eq)
  then have "unat (evaluatePolynomial p x) = ?n mod 2 ^ 32"
    by (simp only: unat_of_nat) simp
  with assms show ?thesis by simp
qed

theorem evaluatePolynomial_exact_witness:
  "unat (coef_a fixture) * unat (10 :: u32) ^ 4 + unat (coef_b fixture) * unat (10 :: u32) ^ 3
      + unat (coef_c fixture) * unat (10 :: u32) ^ 2 + unat (coef_d fixture) * unat (10 :: u32)
      + unat (coef_e fixture) < 2 ^ 32
   \<and> unat (evaluatePolynomial fixture 10) = 12345"
  using evaluatePolynomial_exact [of fixture 10] by (simp add: fixture_def)

section \<open>The two integer integrations on the fixture\<close>

lemma evaluateAntiderivative_fixture_0: "evaluateAntiderivative fixture 0 = 0"
  by code_simp

lemma evaluateAntiderivative_fixture_10: "evaluateAntiderivative fixture 10 = 26250"
  by code_simp

lemma integratePolynomial_fixture: "integratePolynomial fixture 0 10 = 26250"
  by code_simp

lemma integratePolynomial_fixture_reversed: "integratePolynomial fixture 10 0 = 4294941046"
  by code_simp

lemma symbolicIntegrationNLFSR_fixture: "symbolicIntegrationNLFSR fixture 0 10 = 514"
  by code_simp

text \<open>
  C3. On the fixture, from 0 to 10, the XOR integration returns 514 and the arithmetic
  integration 26250: the two modes differ.
\<close>

theorem xor_and_add_modes_diverge:
  "symbolicIntegrationNLFSR fixture 0 10 = 514 \<and> integratePolynomial fixture 0 10 = 26250
   \<and> symbolicIntegrationNLFSR fixture 0 10 \<noteq> integratePolynomial fixture 0 10"
  by (simp add: integratePolynomial_fixture symbolicIntegrationNLFSR_fixture)

text \<open>
  C10. Over the empty interval from \<open>x\<close> to \<open>x\<close> both integer integrations return 0, for
  every polynomial.
\<close>

theorem empty_interval_zero:
  "integratePolynomial p x x = 0 \<and> symbolicIntegrationNLFSR p x x = 0"
  by (simp add: integratePolynomial_def symbolicIntegrationNLFSR_def)

section \<open>Unsigned subtraction wraps\<close>

text \<open>
  C5, as stated, fails: from 10 to 0 on the fixture the antiderivative at the end is
  below the one at the start, and \<open>integratePolynomial\<close> returns the wrapped difference
  \<open>2^32 - 26250\<close>. Its result type has no value for an underflow.
\<close>

theorem integratePolynomial_wraps_counterexample:
  "evaluateAntiderivative fixture 0 < evaluateAntiderivative fixture 10
   \<and> unat (integratePolynomial fixture 10 0) = 2 ^ 32 - 26250"
  by (simp add: evaluateAntiderivative_fixture_0 evaluateAntiderivative_fixture_10
      integratePolynomial_fixture_reversed)

text \<open>
  C5, amended. When the antiderivative at \<open>x_end\<close> is below the one at \<open>x_start\<close>,
  \<open>integratePolynomial\<close> returns \<open>2^32\<close> minus the missing amount.
\<close>

theorem integratePolynomial_wraps:
  assumes "evaluateAntiderivative p x_end < evaluateAntiderivative p x_start"
  shows "unat (integratePolynomial p x_start x_end) =
           2 ^ 32 - (unat (evaluateAntiderivative p x_start)
                      - unat (evaluateAntiderivative p x_end))"
proof -
  have "unat (evaluateAntiderivative p x_end) < unat (evaluateAntiderivative p x_start)"
    using assms by (simp add: word_less_nat_alt)
  moreover have "unat (evaluateAntiderivative p x_start) < 2 ^ 32"
    using unsigned_less [of "evaluateAntiderivative p x_start"] by simp
  ultimately show ?thesis
    by (simp add: integratePolynomial_def unat_sub_if_size word_size)
qed

theorem integratePolynomial_wraps_witness:
  "evaluateAntiderivative fixture 0 < evaluateAntiderivative fixture 10
   \<and> unat (integratePolynomial fixture 10 0) = 4294941046"
proof -
  have h: "evaluateAntiderivative fixture 0 < evaluateAntiderivative fixture 10"
    by (simp add: evaluateAntiderivative_fixture_0 evaluateAntiderivative_fixture_10)
  show ?thesis
    using h integratePolynomial_wraps [OF h]
    by (simp add: evaluateAntiderivative_fixture_0 evaluateAntiderivative_fixture_10)
qed

section \<open>Integer division truncates\<close>

lemma evaluateAntiderivative_fixture_3: "evaluateAntiderivative fixture 3 = 148"
  by code_simp

text \<open>
  C6. The code does not do what the claim asks. With coefficient 11, divisor 5 and
  power 1 the product 11 leaves the remainder 1 when divided by 5, and
  \<open>evaluateAntiderivative\<close> returns the truncated quotient 2, the value it returns for
  the coefficient 10; so does \<open>antiderivativeNLFSR\<close>, which divides the coefficient
  first. On the globals of the sketch at \<open>x = 3\<close> the exact antiderivative is 149.1 and
  \<open>evaluateAntiderivative\<close> returns 148. Its comment says the terms are computed so as to
  avoid integer division errors.
\<close>

theorem evaluateAntiderivative_discards_remainder:
  "multiplyNLFSR 11 1 mod 5 = 1
   \<and> evaluateAntiderivative (quartic 11) 1 = 2
   \<and> evaluateAntiderivative (quartic 10) 1 = 2
   \<and> antiderivativeNLFSR (quartic 11) 1 = 2
   \<and> evaluateAntiderivative fixture 3 = 148"
proof -
  have "multiplyNLFSR 11 1 mod 5 = 1" by code_simp
  moreover have "evaluateAntiderivative (quartic 11) 1 = 2" by code_simp
  moreover have "evaluateAntiderivative (quartic 10) 1 = 2" by code_simp
  moreover have "antiderivativeNLFSR (quartic 11) 1 = 2" by code_simp
  ultimately show ?thesis by (simp add: evaluateAntiderivative_fixture_3)
qed

section \<open>Termination and iteration bounds\<close>

text \<open>
  The loops are defined with their termination proofs: the multiplier is halved while
  it is positive. A multiplier below \<open>2^k\<close> is exhausted after at most \<open>k\<close> iterations,
  so a 32-bit one after at most 32; the multiplier \<open>0xFFFFFFFF\<close> takes all 32.
\<close>

lemma multiplyNLFSR_loop_iters_le:
  "unat m < 2 ^ k \<Longrightarrow> multiplyNLFSR_loop_iters r c m \<le> k"
proof (induction k arbitrary: r c m)
  case 0
  then have "m = 0" by (simp add: unat_eq_0)
  then show ?case by (simp add: multiplyNLFSR_loop_iters.simps)
next
  case (Suc k)
  show ?case
  proof (cases "m > 0")
    case False
    then show ?thesis by (simp add: multiplyNLFSR_loop_iters.simps)
  next
    case True
    have "unat (drop_bit 1 m) < 2 ^ k"
      using Suc.prems by (simp add: drop_bit_eq_div unat_div)
    then have "multiplyNLFSR_loop_iters (if m AND 1 \<noteq> 0 then r + c else r)
                 (push_bit 1 c) (drop_bit 1 m) \<le> k"
      by (rule Suc.IH)
    with True show ?thesis
      by (subst multiplyNLFSR_loop_iters.simps) simp
  qed
qed

lemma multiplyNLFSR_xor_loop_iters_le:
  "unat m < 2 ^ k \<Longrightarrow> multiplyNLFSR_xor_loop_iters r c m \<le> k"
proof (induction k arbitrary: r c m)
  case 0
  then have "m = 0" by (simp add: unat_eq_0)
  then show ?case by (simp add: multiplyNLFSR_xor_loop_iters.simps)
next
  case (Suc k)
  show ?case
  proof (cases "m > 0")
    case False
    then show ?thesis by (simp add: multiplyNLFSR_xor_loop_iters.simps)
  next
    case True
    have "unat (drop_bit 1 m) < 2 ^ k"
      using Suc.prems by (simp add: drop_bit_eq_div unat_div)
    then have "multiplyNLFSR_xor_loop_iters (if m AND 1 \<noteq> 0 then r XOR c else r)
                 (push_bit 1 c) (drop_bit 1 m) \<le> k"
      by (rule Suc.IH)
    with True show ?thesis
      by (subst multiplyNLFSR_xor_loop_iters.simps) simp
  qed
qed

lemma unat_u32_bound: "unat (m :: u32) < 2 ^ 32"
  using unsigned_less [of m, where 'a = nat] by simp

lemma multiplyNLFSR_iters_le: "multiplyNLFSR_iters v m \<le> 32"
  unfolding multiplyNLFSR_iters_def
  by (rule multiplyNLFSR_loop_iters_le) (rule unat_u32_bound)

lemma multiplyNLFSR_xor_iters_le: "multiplyNLFSR_xor_iters v m \<le> 32"
  unfolding multiplyNLFSR_xor_iters_def
  by (rule multiplyNLFSR_xor_loop_iters_le) (rule unat_u32_bound)

lemma multiplyNLFSR_iters_max: "multiplyNLFSR_iters 1 (- 1) = 32"
  by code_simp

lemma evaluatePolynomial_iters_le: "evaluatePolynomial_iters p x \<le> 12 * 32"
proof -
  have "(12 * 32 :: nat) = (32 + 32 + 32 + 32) + (32 + 32 + 32 + 32) + (32 + 32 + 32) + 32"
    by simp
  then show ?thesis
    unfolding evaluatePolynomial_iters_def Let_def
    by (simp only:) (intro add_mono multiplyNLFSR_iters_le)
qed

lemma evaluateAntiderivative_iters_le: "evaluateAntiderivative_iters p x \<le> 19 * 32"
proof -
  have "(19 * 32 :: nat) = (32 + 32 + 32 + 32 + 32 + 32) + (32 + 32 + 32 + 32 + 32)
          + (32 + 32 + 32 + 32) + (32 + 32 + 32) + 32"
    by simp
  then show ?thesis
    unfolding evaluateAntiderivative_iters_def Let_def
    by (simp only:) (intro add_mono multiplyNLFSR_iters_le)
qed

lemma antiderivativeNLFSR_iters_le: "antiderivativeNLFSR_iters p x \<le> 19 * 32"
proof -
  have "(19 * 32 :: nat) = (32 + 32 + 32 + 32 + 32 + 32) + (32 + 32 + 32 + 32 + 32)
          + (32 + 32 + 32 + 32) + (32 + 32 + 32) + 32"
    by simp
  then show ?thesis
    unfolding antiderivativeNLFSR_iters_def Let_def
    by (simp only:) (intro add_mono multiplyNLFSR_xor_iters_le)
qed

text \<open>
  C8. Every multiplication loop ends after at most 32 iterations, whatever the two
  32-bit arguments; an evaluation makes a fixed number of multiplications (12 for the
  polynomial, 19 for an antiderivative, 38 for an integral), hence a bounded number of
  loop iterations.
\<close>

theorem evaluation_iterations_bounded:
  "multiplyNLFSR_iters v m \<le> 32 \<and> multiplyNLFSR_xor_iters v m \<le> 32
   \<and> evaluatePolynomial_iters p x \<le> 12 * 32
   \<and> evaluateAntiderivative_iters p x \<le> 19 * 32
   \<and> integratePolynomial_iters p x_start x_end \<le> 38 * 32
   \<and> symbolicIntegrationNLFSR_iters p x_start x_end \<le> 38 * 32"
proof -
  have "integratePolynomial_iters p x_start x_end \<le> 38 * 32"
    unfolding integratePolynomial_iters_def
    using evaluateAntiderivative_iters_le [of p x_start]
      evaluateAntiderivative_iters_le [of p x_end] by simp
  moreover have "symbolicIntegrationNLFSR_iters p x_start x_end \<le> 38 * 32"
    unfolding symbolicIntegrationNLFSR_iters_def
    using antiderivativeNLFSR_iters_le [of p x_start]
      antiderivativeNLFSR_iters_le [of p x_end] by simp
  ultimately show ?thesis
    using multiplyNLFSR_iters_le multiplyNLFSR_xor_iters_le evaluatePolynomial_iters_le
      evaluateAntiderivative_iters_le by blast
qed

section \<open>The floating-point sketches in exact arithmetic\<close>

lemma exact_simps [simp]:
  "fadd exact = (+)" "fsub exact = (-)" "fmul exact = (*)" "fdiv exact = (/)"
  "fpow exact = (^)" "fnum exact = of_int"
  by (simp_all add: exact_def)

lemma polynomial_exact:
  "polynomial exact p x =
     coef_a p * x ^ 4 + coef_b p * x ^ 3 + coef_c p * x ^ 2 + coef_d p * x + coef_e p"
  by (simp add: polynomial_def)

section \<open>The trapezoid loop is a left fold\<close>

text \<open>
  The loop adds \<open>polynomial (x_start + i * h)\<close> for \<open>i = 1, ..., num_intervals - 1\<close>, in
  this order, to the accumulator it starts with. This holds for any arithmetic; in
  exact arithmetic the fold is the sum.
\<close>

lemma trapezoid_loop_foldl:
  "trapezoid_loop A p x_start h n i integral =
     foldl (\<lambda>s j. fadd A s (polynomial A p (fadd A x_start (fmul A (fnum A j) h))))
       integral [i..n - 1]"
proof (induction A p x_start h n i integral rule: trapezoid_loop.induct)
  case (1 A p x_start h n i integral)
  show ?case
  proof (cases "i < n")
    case True
    then have "[i..n - 1] = i # [i + 1..n - 1]"
      by (simp add: upto_rec1)
    with True "1.IH" show ?thesis
      by (subst trapezoid_loop.simps) simp
  next
    case False
    then show ?thesis
      by (subst trapezoid_loop.simps) simp
  qed
qed

lemma foldl_add_sum:
  fixes f :: "int \<Rightarrow> real"
  shows "foldl (\<lambda>s j. s + f j) acc [i..j] = acc + (\<Sum>k = i..j. f k)"
proof -
  have "foldl (\<lambda>s j. s + f j) acc xs = acc + sum_list (map f xs)" for xs
    by (induction xs arbitrary: acc) (simp_all add: add.assoc)
  then show ?thesis
    by (simp add: sum_set_upto_conv_sum_list_int [symmetric])
qed

lemma trapezoidalIntegration_exact:
  "trapezoidalIntegration exact p x_start x_end n =
     (let h = (x_end - x_start) / of_int n
      in h * (polynomial exact p x_start / 2 + polynomial exact p x_end / 2
               + (\<Sum>i = 1..n - 1. polynomial exact p (x_start + of_int i * h))))"
  by (simp add: trapezoidalIntegration_def trapezoid_loop_foldl foldl_add_sum Let_def
      mult.commute)

lemma trapezoidalIntegration_foldl:
  "trapezoidalIntegration A p x_start x_end n =
     (let h = fdiv A (fsub A x_end x_start) (fnum A n)
      in fmul A
           (foldl (\<lambda>s i. fadd A s (polynomial A p (fadd A x_start (fmul A (fnum A i) h))))
              (fadd A (fadd A (fnum A 0) (fdiv A (polynomial A p x_start) (fnum A 2)))
                 (fdiv A (polynomial A p x_end) (fnum A 2)))
              [1..n - 1])
           h)"
  by (simp add: trapezoidalIntegration_def trapezoid_loop_foldl Let_def)

text \<open>
  C7. \<open>trapezoidalIntegration\<close> computes the step \<open>h = (x_end - x_start) / n\<close>, adds the
  two halved end values and the \<open>n - 1\<close> inner values of the polynomial, in this order,
  and multiplies by \<open>h\<close>: as a fold of the code's own operations for any arithmetic,
  and, for \<open>n \<ge> 1\<close> in exact arithmetic, as
  \<open>h * (f(x_start)/2 + f(x_end)/2 + \<Sum> f(x_start + i h))\<close> with \<open>f\<close> the polynomial of
  degree 4.
\<close>

theorem trapezoidalIntegration_formula:
  "trapezoidalIntegration A p x_start x_end n =
     (let h = fdiv A (fsub A x_end x_start) (fnum A n)
      in fmul A
           (foldl (\<lambda>s i. fadd A s (polynomial A p (fadd A x_start (fmul A (fnum A i) h))))
              (fadd A (fadd A (fnum A 0) (fdiv A (polynomial A p x_start) (fnum A 2)))
                 (fdiv A (polynomial A p x_end) (fnum A 2)))
              [1..n - 1])
           h)
   \<and> (1 \<le> m \<longrightarrow>
        trapezoidalIntegration exact q y_start y_end m =
          (let h = (y_end - y_start) / of_int m
           in h * (polynomial exact q y_start / 2 + polynomial exact q y_end / 2
                    + (\<Sum>i = 1..m - 1. polynomial exact q (y_start + of_int i * h)))))
   \<and> polynomial exact q y =
        coef_a q * y ^ 4 + coef_b q * y ^ 3 + coef_c q * y ^ 2 + coef_d q * y + coef_e q"
  using trapezoidalIntegration_foldl [of A p x_start x_end n]
    trapezoidalIntegration_exact [of q y_start y_end m] polynomial_exact [of q y]
  by simp

theorem trapezoidalIntegration_formula_witness:
  "(1 :: int) \<le> 2
   \<and> trapezoidalIntegration exact (fixture_double exact) 0 10 2 = 35750"
  using trapezoidalIntegration_formula [of exact "fixture_double exact" 0 10 2 2
      "fixture_double exact" 0 10 0]
  by (simp add: fixture_double_def polynomial_def)

section \<open>The two floating-point antiderivatives\<close>

text \<open>
  C9. \<open>antiderivativeNLFSR\<close> over doubles and \<open>polynomialAntiderivative\<close> are the same
  expression of the same operations, so they agree for any arithmetic, and so do the
  two integrations built on them; in exact arithmetic both are
  \<open>(a/5) x^5 + (b/4) x^4 + (c/3) x^3 + (d/2) x^2 + e x\<close>.
\<close>

theorem double_antiderivatives_equal:
  "antiderivativeNLFSR_double A p x = polynomialAntiderivative A p x
   \<and> symbolicIntegrationNLFSR_double A p x_start x_end = symbolicIntegration A p x_start x_end
   \<and> polynomialAntiderivative exact q y =
        coef_a q / 5 * y ^ 5 + coef_b q / 4 * y ^ 4 + coef_c q / 3 * y ^ 3
          + coef_d q / 2 * y ^ 2 + coef_e q * y
   \<and> antiderivativeNLFSR_double exact q y =
        coef_a q / 5 * y ^ 5 + coef_b q / 4 * y ^ 4 + coef_c q / 3 * y ^ 3
          + coef_d q / 2 * y ^ 2 + coef_e q * y"
  by (simp add: antiderivativeNLFSR_double_def polynomialAntiderivative_def
      symbolicIntegrationNLFSR_double_def symbolicIntegration_def)

section \<open>The fixture\<close>

text \<open>
  The sums of the first four powers, by induction on the upper bound. They give the
  trapezoid sum over the 999 inner points of the fixture in closed form.
\<close>

lemma sum_range_Suc:
  fixes f :: "int \<Rightarrow> real"
  shows "(\<Sum>i = 1..int (Suc m). f i) = f (int m + 1) + (\<Sum>i = 1..int m. f i)"
proof -
  have "{1..int (Suc m)} = insert (int m + 1) {1..int m}"
    by auto
  then show ?thesis by simp
qed

lemma sum_pow1: "2 * (\<Sum>i = 1..int m. (of_int i :: real)) = of_nat m * (of_nat m + 1)"
proof (induction m)
  case 0
  show ?case by simp
next
  case (Suc m)
  show ?case
    unfolding sum_range_Suc using Suc by (simp add: algebra_simps)
qed

lemma sum_pow2:
  "6 * (\<Sum>i = 1..int m. (of_int i :: real) ^ 2) = of_nat m * (of_nat m + 1) * (2 * of_nat m + 1)"
proof (induction m)
  case 0
  show ?case by simp
next
  case (Suc m)
  show ?case
    unfolding sum_range_Suc using Suc by (simp add: algebra_simps power2_eq_square)
qed

lemma sum_pow3:
  "4 * (\<Sum>i = 1..int m. (of_int i :: real) ^ 3) = (of_nat m * (of_nat m + 1)) ^ 2"
proof (induction m)
  case 0
  show ?case by simp
next
  case (Suc m)
  show ?case
    unfolding sum_range_Suc using Suc
    by (simp add: algebra_simps power2_eq_square power3_eq_cube)
qed

lemma sum_pow4:
  "30 * (\<Sum>i = 1..int m. (of_int i :: real) ^ 4) =
     of_nat m * (of_nat m + 1) * (2 * of_nat m + 1) * (3 * of_nat m ^ 2 + 3 * of_nat m - 1)"
proof (induction m)
  case 0
  show ?case by simp
next
  case (Suc m)
  show ?case
    unfolding sum_range_Suc using Suc
    by (simp add: algebra_simps power2_eq_square power4_eq_xxxx)
qed

lemma fixture_sum:
  "(\<Sum>i = 1..int m. polynomial exact (fixture_double exact) (of_int i / 100)) =
     (\<Sum>i = 1..int m. of_int i ^ 4) / 100000000 + 2 * (\<Sum>i = 1..int m. of_int i ^ 3) / 1000000
       + 3 * (\<Sum>i = 1..int m. of_int i ^ 2) / 10000 + 4 * (\<Sum>i = 1..int m. of_int i) / 100
       + 5 * of_nat m"
  by (simp add: polynomial_exact fixture_double_def power_divide sum.distrib
      sum_divide_distrib sum_distrib_left)

lemma fixture_sum_999:
  "(\<Sum>i = 1..999. polynomial exact (fixture_double exact) (of_int i / 100)) =
     2618828883333 / 1000000"
proof -
  have s1: "(\<Sum>i = 1..999. (of_int i :: real)) = 499500"
    using sum_pow1 [of 999] by simp
  have s2: "(\<Sum>i = 1..999. (of_int i :: real) ^ 2) = 332833500"
    using sum_pow2 [of 999] by simp
  have s3: "(\<Sum>i = 1..999. (of_int i :: real) ^ 3) = 249500250000"
    using sum_pow3 [of 999] by simp
  have s4: "(\<Sum>i = 1..999. (of_int i :: real) ^ 4) = 199500333333300"
    using sum_pow4 [of 999] by simp
  show ?thesis
    using fixture_sum [of 999] by (simp add: s1 s2 s3 s4)
qed

lemma trapezoid_fixture_value:
  "trapezoidalIntegration exact (fixture_double exact) 0 10 default_num_intervals =
     2625003883333 / 100000000"
  by (simp add: trapezoidalIntegration_exact default_num_intervals_def fixture_sum_999)
     (simp add: polynomial_exact fixture_double_def)

lemma symbolic_fixture_value:
  "symbolicIntegration exact (fixture_double exact) 0 10 = 26250"
  by (simp add: symbolicIntegration_def polynomialAntiderivative_def fixture_double_def)

section \<open>The fixture with rounding\<close>

text \<open>
  Every operation multiplies the error factor of its result by a number between \<open>1 - u\<close> and \<open>1 + u\<close>. All
  values met on the fixture are nonnegative, the only subtraction has an operand 0, and
  the divisors are exact, so the factors compose: a sum has the larger count of its
  operands plus one, a product their total plus one.
\<close>

lemma rb_bounds: "0 < rounding_bound" "rounding_bound < 1"
  by (simp_all add: rounding_bound_def)

lemma rb_small: "of_nat k * rounding_bound \<le> 1 / 4" if "k \<le> 2000" for k :: nat
proof -
  have "of_nat k * rounding_bound \<le> 2000 * rounding_bound"
    using that rb_bounds by (intro mult_right_mono) simp_all
  also have "\<dots> \<le> 1 / 4"
    by (simp add: rounding_bound_def)
  finally show ?thesis .
qed

lemma lo_ge: "1 - of_nat k * rounding_bound \<le> (1 - rounding_bound) ^ k"
  using Bernoulli_inequality [of "- rounding_bound" k] rb_bounds by simp

lemma hi_le: "of_nat k * rounding_bound \<le> 1 / 2 \<Longrightarrow> (1 + rounding_bound) ^ k \<le> 1 + 2 * of_nat k * rounding_bound"
proof (induction k)
  case 0
  show ?case by simp
next
  case (Suc k)
  have e: "0 < rounding_bound" by (rule rb_bounds)
  have k: "of_nat k * rounding_bound \<le> 1 / 2"
    using Suc.prems e by (simp add: algebra_simps)
  then have ih: "(1 + rounding_bound) ^ k \<le> 1 + 2 * of_nat k * rounding_bound"
    by (rule Suc.IH)
  have "(1 + rounding_bound) ^ Suc k = (1 + rounding_bound) ^ k * (1 + rounding_bound)"
    by simp
  also have "\<dots> \<le> (1 + 2 * of_nat k * rounding_bound) * (1 + rounding_bound)"
    using ih e by (intro mult_right_mono) simp_all
  also have "\<dots> = 1 + 2 * of_nat k * rounding_bound + rounding_bound
                   + 2 * (of_nat k * rounding_bound) * rounding_bound"
    by (simp add: algebra_simps)
  also have "\<dots> \<le> 1 + 2 * of_nat k * rounding_bound + rounding_bound + 1 * rounding_bound"
    using k e by (intro add_left_mono mult_right_mono) simp_all
  also have "\<dots> = 1 + 2 * of_nat (Suc k) * rounding_bound"
    by (simp add: algebra_simps)
  finally show ?case .
qed

lemma lo_hi_half:
  assumes "k \<le> 2000"
  shows "1 / 2 \<le> (1 - rounding_bound) ^ k" "(1 + rounding_bound) ^ k \<le> 2"
proof -
  have s: "of_nat k * rounding_bound \<le> 1 / 4"
    using assms by (rule rb_small)
  show "1 / 2 \<le> (1 - rounding_bound) ^ k"
    using lo_ge [of k] s by simp
  have "(1 + rounding_bound) ^ k \<le> 1 + 2 * of_nat k * rounding_bound"
    using s by (intro hi_le) simp
  with s show "(1 + rounding_bound) ^ k \<le> 2"
    by simp
qed

lemma lo_mono: "k \<le> k' \<Longrightarrow> (1 - rounding_bound) ^ k' \<le> (1 - rounding_bound) ^ k"
  using rb_bounds by (intro power_decreasing) simp_all

lemma hi_mono: "k \<le> k' \<Longrightarrow> (1 + rounding_bound) ^ k \<le> (1 + rounding_bound) ^ k'"
  using rb_bounds by (intro power_increasing) simp_all

lemma near_mono: "near val k x r \<Longrightarrow> k \<le> k' \<Longrightarrow> near val k' x r"
proof -
  assume n: "near val k x r" and le: "k \<le> k'"
  from n obtain y where r: "0 \<le> r" and y: "val x = Some y"
    and l: "r * (1 - rounding_bound) ^ k \<le> y" and h: "y \<le> r * (1 + rounding_bound) ^ k"
    by (auto simp: near_def)
  have "r * (1 - rounding_bound) ^ k' \<le> r * (1 - rounding_bound) ^ k"
    using r lo_mono [OF le] by (intro mult_left_mono)
  moreover have "r * (1 + rounding_bound) ^ k \<le> r * (1 + rounding_bound) ^ k'"
    using r hi_mono [OF le] by (intro mult_left_mono)
  ultimately show ?thesis
    using r y l h by (auto simp: near_def)
qed

lemma enclosed_in_range:
  assumes "0 \<le> r" "r * (1 - rounding_bound) ^ k \<le> y" "y \<le> r * (1 + rounding_bound) ^ k"
    "k \<le> 2000" "ok r"
  shows "in_range y" "0 \<le> y"
proof -
  have lo: "1 / 2 \<le> (1 - rounding_bound) ^ k" and hi: "(1 + rounding_bound) ^ k \<le> 2"
    using assms(4) by (rule lo_hi_half)+
  have l: "r * (1 / 2) \<le> y"
    using mult_left_mono [OF lo assms(1)] assms(2) by linarith
  have h: "y \<le> r * 2"
    using mult_left_mono [OF hi assms(1)] assms(3) by linarith
  show "0 \<le> y" using l assms(1) by simp
  show "in_range y"
    using l h assms(1,5) by (auto simp: in_range_def ok_def)
qed

lemma round_step:
  assumes "0 \<le> r" "r * (1 - rounding_bound) ^ k \<le> y" "y \<le> r * (1 + rounding_bound) ^ k"
    "\<bar>c - y\<bar> \<le> rounding_bound * \<bar>y\<bar>"
  shows "r * (1 - rounding_bound) ^ Suc k \<le> c \<and> c \<le> r * (1 + rounding_bound) ^ Suc k"
proof -
  have e: "0 < rounding_bound" "rounding_bound < 1" by (rule rb_bounds)+
  have "0 \<le> r * (1 - rounding_bound) ^ k"
    using assms(1) e by simp
  then have y0: "0 \<le> y" using assms(2) by linarith
  then have c: "y * (1 - rounding_bound) \<le> c" "c \<le> y * (1 + rounding_bound)"
    using assms(4) by (simp_all add: algebra_simps abs_le_iff)
  have "r * (1 - rounding_bound) ^ k * (1 - rounding_bound) \<le> y * (1 - rounding_bound)"
    using assms(2) e by (intro mult_right_mono) simp_all
  moreover have "y * (1 + rounding_bound) \<le> r * (1 + rounding_bound) ^ k * (1 + rounding_bound)"
    using assms(3) e by (intro mult_right_mono) simp_all
  ultimately show ?thesis
    using c by (simp add: mult.assoc mult.commute [of "1 - rounding_bound"]
        mult.commute [of "1 + rounding_bound"])
qed

lemma rw_num:
  "rounds_within eps A val \<Longrightarrow> \<bar>i\<bar> \<le> 2 ^ 31 \<Longrightarrow> val (fnum A i) = Some (of_int i)"
  unfolding rounds_within_def by blast

lemma rw_add:
  "rounds_within eps A val \<Longrightarrow> val x = Some a \<Longrightarrow> val y = Some b \<Longrightarrow> in_range (a + b)
   \<Longrightarrow> \<exists>c. val (fadd A x y) = Some c \<and> \<bar>c - (a + b)\<bar> \<le> eps * \<bar>a + b\<bar>"
  unfolding rounds_within_def by blast

lemma rw_sub:
  "rounds_within eps A val \<Longrightarrow> val x = Some a \<Longrightarrow> val y = Some b \<Longrightarrow> in_range (a - b)
   \<Longrightarrow> \<exists>c. val (fsub A x y) = Some c \<and> \<bar>c - (a - b)\<bar> \<le> eps * \<bar>a - b\<bar>"
  unfolding rounds_within_def by blast

lemma rw_mul:
  "rounds_within eps A val \<Longrightarrow> val x = Some a \<Longrightarrow> val y = Some b \<Longrightarrow> in_range (a * b)
   \<Longrightarrow> \<exists>c. val (fmul A x y) = Some c \<and> \<bar>c - a * b\<bar> \<le> eps * \<bar>a * b\<bar>"
  unfolding rounds_within_def by blast

lemma rw_div:
  "rounds_within eps A val \<Longrightarrow> val x = Some a \<Longrightarrow> val y = Some b \<Longrightarrow> b \<noteq> 0
   \<Longrightarrow> in_range (a / b)
   \<Longrightarrow> \<exists>c. val (fdiv A x y) = Some c \<and> \<bar>c - a / b\<bar> \<le> eps * \<bar>a / b\<bar>"
  unfolding rounds_within_def by blast

lemma rw_pow:
  "rounds_within eps A val \<Longrightarrow> val x = Some a \<Longrightarrow> in_range (a ^ k)
   \<Longrightarrow> \<exists>c. val (fpow A x k) = Some c \<and> \<bar>c - a ^ k\<bar> \<le> eps * \<bar>a ^ k\<bar>"
  unfolding rounds_within_def by blast

lemma near_num:
  assumes "rounds_within rounding_bound A val" "0 \<le> i" "i \<le> 2 ^ 31" "r = of_int i"
  shows "near val k (fnum A i) r"
proof -
  have "val (fnum A i) = Some (of_int i)"
    using assms by (intro rw_num [OF assms(1)]) simp
  then have "near val 0 (fnum A i) r"
    using assms by (simp add: near_def)
  then show ?thesis by (rule near_mono) simp
qed

lemma near_add:
  assumes R: "rounds_within rounding_bound A val"
    and 1: "near val k1 x1 r1" and 2: "near val k2 x2 r2"
    and r: "r = r1 + r2" and k: "k1 < k" "k2 < k" "k \<le> 2000" and ok: "ok r"
  shows "near val k (fadd A x1 x2) r"
proof -
  obtain j where j: "k = Suc j" using k(1) by (cases k) simp_all
  have "near val j x1 r1" "near val j x2 r2"
    using 1 2 k j by (auto intro: near_mono)
  then obtain y1 y2 where r0: "0 \<le> r1" "0 \<le> r2"
    and y: "val x1 = Some y1" "val x2 = Some y2"
    and l: "r1 * (1 - rounding_bound) ^ j \<le> y1" "r2 * (1 - rounding_bound) ^ j \<le> y2"
    and h: "y1 \<le> r1 * (1 + rounding_bound) ^ j" "y2 \<le> r2 * (1 + rounding_bound) ^ j"
    by (auto simp: near_def)
  have rr: "0 \<le> r" using r r0 by simp
  have el: "r * (1 - rounding_bound) ^ j \<le> y1 + y2"
    using l by (simp add: r algebra_simps)
  have eh: "y1 + y2 \<le> r * (1 + rounding_bound) ^ j"
    using h by (simp add: r algebra_simps)
  have "in_range (y1 + y2)"
    using rr el eh k(3) ok j by (intro enclosed_in_range(1) [of r j]) simp_all
  from rw_add [OF R y this] obtain c where c: "val (fadd A x1 x2) = Some c"
    and e: "\<bar>c - (y1 + y2)\<bar> \<le> rounding_bound * \<bar>y1 + y2\<bar>"
    by blast
  from round_step [OF rr el eh e] c rr show ?thesis
    by (auto simp: near_def j)
qed

lemma near_sub_zero:
  assumes R: "rounds_within rounding_bound A val"
    and 1: "near val k1 x1 r" and 2: "near val k2 x2 0"
    and k: "k1 < k" "k \<le> 2000" and ok: "ok r"
  shows "near val k (fsub A x1 x2) r"
proof -
  obtain j where j: "k = Suc j" using k(1) by (cases k) simp_all
  have "near val j x1 r"
    using 1 k j by (auto intro: near_mono)
  then obtain y1 where rr: "0 \<le> r"
    and y1: "val x1 = Some y1"
    and el: "r * (1 - rounding_bound) ^ j \<le> y1"
    and eh: "y1 \<le> r * (1 + rounding_bound) ^ j"
    by (auto simp: near_def)
  have y2: "val x2 = Some 0"
    using 2 by (auto simp: near_def)
  have "in_range (y1 - 0)"
    using rr el eh k(2) ok j by (simp add: enclosed_in_range(1) [of r j])
  from rw_sub [OF R y1 y2 this] obtain c where c: "val (fsub A x1 x2) = Some c"
    and e: "\<bar>c - y1\<bar> \<le> rounding_bound * \<bar>y1\<bar>"
    by auto
  from round_step [OF rr el eh e] c rr show ?thesis
    by (auto simp: near_def j)
qed

lemma near_mul:
  assumes R: "rounds_within rounding_bound A val"
    and 1: "near val k1 x1 r1" and 2: "near val k2 x2 r2"
    and r: "r = r1 * r2" and k: "k1 + k2 < k" "k \<le> 2000" and ok: "ok r"
  shows "near val k (fmul A x1 x2) r"
proof -
  have e: "0 < rounding_bound" "rounding_bound < 1" by (rule rb_bounds)+
  obtain j where j: "k = Suc j" using k(1) by (cases k) simp_all
  from 1 2 obtain y1 y2 where r0: "0 \<le> r1" "0 \<le> r2"
    and y: "val x1 = Some y1" "val x2 = Some y2"
    and l: "r1 * (1 - rounding_bound) ^ k1 \<le> y1" "r2 * (1 - rounding_bound) ^ k2 \<le> y2"
    and h: "y1 \<le> r1 * (1 + rounding_bound) ^ k1" "y2 \<le> r2 * (1 + rounding_bound) ^ k2"
    by (auto simp: near_def)
  have rr: "0 \<le> r" using r r0 by simp
  have "0 \<le> r1 * (1 - rounding_bound) ^ k1" "0 \<le> r2 * (1 - rounding_bound) ^ k2"
    using r0 e by simp_all
  then have y0: "0 \<le> y1" "0 \<le> y2"
    using l by linarith+
  have "(r1 * (1 - rounding_bound) ^ k1) * (r2 * (1 - rounding_bound) ^ k2) \<le> y1 * y2"
    using l r0 e y0 by (intro mult_mono) simp_all
  then have l12: "r * (1 - rounding_bound) ^ (k1 + k2) \<le> y1 * y2"
    by (simp add: r power_add algebra_simps)
  have "y1 * y2 \<le> (r1 * (1 + rounding_bound) ^ k1) * (r2 * (1 + rounding_bound) ^ k2)"
    using h r0 e y0 by (intro mult_mono) simp_all
  then have h12: "y1 * y2 \<le> r * (1 + rounding_bound) ^ (k1 + k2)"
    by (simp add: r power_add algebra_simps)
  have "k1 + k2 \<le> j" using k j by simp
  then have el: "r * (1 - rounding_bound) ^ j \<le> y1 * y2"
    and eh: "y1 * y2 \<le> r * (1 + rounding_bound) ^ j"
    using l12 h12 mult_left_mono [OF lo_mono rr, of "k1 + k2" j]
      mult_left_mono [OF hi_mono rr, of "k1 + k2" j] by linarith+
  have "in_range (y1 * y2)"
    using rr el eh k(2) ok j by (intro enclosed_in_range(1) [of r j]) simp_all
  from rw_mul [OF R y this] obtain c where c: "val (fmul A x1 x2) = Some c"
    and er: "\<bar>c - y1 * y2\<bar> \<le> rounding_bound * \<bar>y1 * y2\<bar>"
    by blast
  from round_step [OF rr el eh er] c rr show ?thesis
    by (auto simp: near_def j)
qed

lemma near_div_num:
  assumes R: "rounds_within rounding_bound A val"
    and 1: "near val k1 x r1"
    and d: "0 < d" "d \<le> 2 ^ 31"
    and r: "r = r1 / of_int d" and k: "k1 < k" "k \<le> 2000" and ok: "ok r"
  shows "near val k (fdiv A x (fnum A d)) r"
proof -
  obtain j where j: "k = Suc j" using k(1) by (cases k) simp_all
  have "near val j x r1"
    using 1 k j by (auto intro: near_mono)
  then obtain y where r0: "0 \<le> r1"
    and y: "val x = Some y"
    and l: "r1 * (1 - rounding_bound) ^ j \<le> y"
    and h: "y \<le> r1 * (1 + rounding_bound) ^ j"
    by (auto simp: near_def)
  have dv: "val (fnum A d) = Some (of_int d)"
    using d by (intro rw_num [OF R]) simp
  have dp: "0 < (of_int d :: real)" using d by simp
  have rr: "0 \<le> r" using r r0 dp by simp
  have el: "r * (1 - rounding_bound) ^ j \<le> y / of_int d"
    using divide_right_mono [OF l, of "of_int d"] dp by (simp add: r)
  have eh: "y / of_int d \<le> r * (1 + rounding_bound) ^ j"
    using divide_right_mono [OF h, of "of_int d"] dp by (simp add: r)
  have "in_range (y / of_int d)"
    using rr el eh k(2) ok j by (intro enclosed_in_range(1) [of r j]) simp_all
  from rw_div [OF R y dv _ this] dp obtain c where c: "val (fdiv A x (fnum A d)) = Some c"
    and er: "\<bar>c - y / of_int d\<bar> \<le> rounding_bound * \<bar>y / of_int d\<bar>"
    by auto
  from round_step [OF rr el eh er] c rr show ?thesis
    by (auto simp: near_def j)
qed

lemma near_pow:
  assumes R: "rounds_within rounding_bound A val"
    and 1: "near val k1 x r1"
    and r: "r = r1 ^ n" and k: "n * k1 < k" "k \<le> 2000" and ok: "ok r"
  shows "near val k (fpow A x n) r"
proof -
  have e: "0 < rounding_bound" "rounding_bound < 1" by (rule rb_bounds)+
  obtain j where j: "k = Suc j" using k(1) by (cases k) simp_all
  from 1 obtain y where r0: "0 \<le> r1"
    and y: "val x = Some y"
    and l: "r1 * (1 - rounding_bound) ^ k1 \<le> y"
    and h: "y \<le> r1 * (1 + rounding_bound) ^ k1"
    by (auto simp: near_def)
  have rr: "0 \<le> r" using r r0 by simp
  have "0 \<le> r1 * (1 - rounding_bound) ^ k1" using r0 e by simp
  then have y0: "0 \<le> y" using l by linarith
  have "(r1 * (1 - rounding_bound) ^ k1) ^ n \<le> y ^ n"
    using l r0 e by (intro power_mono) simp_all
  then have ln: "r * (1 - rounding_bound) ^ (n * k1) \<le> y ^ n"
    by (simp add: r power_mult_distrib power_mult mult.commute)
  have "y ^ n \<le> (r1 * (1 + rounding_bound) ^ k1) ^ n"
    using h y0 by (intro power_mono) simp_all
  then have hn: "y ^ n \<le> r * (1 + rounding_bound) ^ (n * k1)"
    by (simp add: r power_mult_distrib power_mult mult.commute)
  have "n * k1 \<le> j" using k j by simp
  then have el: "r * (1 - rounding_bound) ^ j \<le> y ^ n"
    and eh: "y ^ n \<le> r * (1 + rounding_bound) ^ j"
    using ln hn mult_left_mono [OF lo_mono rr, of "n * k1" j]
      mult_left_mono [OF hi_mono rr, of "n * k1" j] by linarith+
  have "in_range (y ^ n)"
    using rr el eh k(2) ok j by (intro enclosed_in_range(1) [of r j]) simp_all
  from rw_pow [OF R y this] obtain c where c: "val (fpow A x n) = Some c"
    and er: "\<bar>c - y ^ n\<bar> \<le> rounding_bound * \<bar>y ^ n\<bar>"
    by blast
  from round_step [OF rr el eh er] c rr show ?thesis
    by (auto simp: near_def j)
qed

lemma rng_powers:
  fixes r :: real
  assumes "1 / 100 \<le> r" "r \<le> 10"
  shows "1 / 10000 \<le> r ^ 2" "r ^ 2 \<le> 100" "1 / 1000000 \<le> r ^ 3" "r ^ 3 \<le> 1000"
    "1 / 100000000 \<le> r ^ 4" "r ^ 4 \<le> 10000"
proof -
  have l: "(1 / 100) ^ n \<le> r ^ n" for n
    using assms by (intro power_mono) simp_all
  have h: "r ^ n \<le> 10 ^ n" for n
    using assms by (intro power_mono) simp_all
  show "1 / 10000 \<le> r ^ 2" using l [of 2] by (simp add: power_divide)
  show "1 / 1000000 \<le> r ^ 3" using l [of 3] by (simp add: power_divide)
  show "1 / 100000000 \<le> r ^ 4" using l [of 4] by (simp add: power_divide)
  show "r ^ 2 \<le> 100" using h [of 2] by simp
  show "r ^ 3 \<le> 1000" using h [of 3] by simp
  show "r ^ 4 \<le> 10000" using h [of 4] by simp
qed

lemma polynomial_near:
  assumes R: "rounds_within rounding_bound A val"
    and x: "near val 4 x r" and rng: "rng r"
  shows "near val 22 (polynomial A (fixture_double A) x) (fixture_poly r)"
proof -
  have oks: "ok (r ^ 4)" "ok (r ^ 3)" "ok (r ^ 2)" "ok (2 * r ^ 3)" "ok (3 * r ^ 2)" "ok (4 * r)"
    "ok (r ^ 4 + 2 * r ^ 3)" "ok (r ^ 4 + 2 * r ^ 3 + 3 * r ^ 2)"
    "ok (r ^ 4 + 2 * r ^ 3 + 3 * r ^ 2 + 4 * r)"
    "ok (r ^ 4 + 2 * r ^ 3 + 3 * r ^ 2 + 4 * r + 5)"
    using rng rng_powers [of r] by (auto simp: rng_def ok_def)
  have p4: "near val 17 (fpow A x 4) (r ^ 4)"
    by (rule near_pow [OF R x]) (simp_all add: oks)
  have p3: "near val 13 (fpow A x 3) (r ^ 3)"
    by (rule near_pow [OF R x]) (simp_all add: oks)
  have p2: "near val 9 (fpow A x 2) (r ^ 2)"
    by (rule near_pow [OF R x]) (simp_all add: oks)
  have c1: "near val 0 (fnum A 1) 1" by (rule near_num [OF R]) simp_all
  have c2: "near val 0 (fnum A 2) 2" by (rule near_num [OF R]) simp_all
  have c3: "near val 0 (fnum A 3) 3" by (rule near_num [OF R]) simp_all
  have c4: "near val 0 (fnum A 4) 4" by (rule near_num [OF R]) simp_all
  have c5: "near val 0 (fnum A 5) 5" by (rule near_num [OF R]) simp_all
  have t1: "near val 18 (fmul A (fnum A 1) (fpow A x 4)) (r ^ 4)"
    by (rule near_mul [OF R c1 p4]) (simp_all add: oks)
  have t2: "near val 14 (fmul A (fnum A 2) (fpow A x 3)) (2 * r ^ 3)"
    by (rule near_mul [OF R c2 p3]) (simp_all add: oks)
  have t3: "near val 10 (fmul A (fnum A 3) (fpow A x 2)) (3 * r ^ 2)"
    by (rule near_mul [OF R c3 p2]) (simp_all add: oks)
  have t4: "near val 5 (fmul A (fnum A 4) x) (4 * r)"
    by (rule near_mul [OF R c4 x]) (simp_all add: oks)
  have s1: "near val 19 (fadd A (fmul A (fnum A 1) (fpow A x 4))
              (fmul A (fnum A 2) (fpow A x 3))) (r ^ 4 + 2 * r ^ 3)"
    by (rule near_add [OF R t1 t2]) (simp_all add: oks)
  have s2: "near val 20 (fadd A (fadd A (fmul A (fnum A 1) (fpow A x 4))
              (fmul A (fnum A 2) (fpow A x 3))) (fmul A (fnum A 3) (fpow A x 2)))
              (r ^ 4 + 2 * r ^ 3 + 3 * r ^ 2)"
    by (rule near_add [OF R s1 t3]) (simp_all add: oks)
  have s3: "near val 21 (fadd A (fadd A (fadd A (fmul A (fnum A 1) (fpow A x 4))
              (fmul A (fnum A 2) (fpow A x 3))) (fmul A (fnum A 3) (fpow A x 2)))
              (fmul A (fnum A 4) x))
              (r ^ 4 + 2 * r ^ 3 + 3 * r ^ 2 + 4 * r)"
    by (rule near_add [OF R s2 t4]) (simp_all add: oks)
  have s4: "near val 22 (fadd A (fadd A (fadd A (fadd A (fmul A (fnum A 1) (fpow A x 4))
              (fmul A (fnum A 2) (fpow A x 3))) (fmul A (fnum A 3) (fpow A x 2)))
              (fmul A (fnum A 4) x)) (fnum A 5))
              (r ^ 4 + 2 * r ^ 3 + 3 * r ^ 2 + 4 * r + 5)"
    by (rule near_add [OF R s3 c5]) (simp_all add: oks)
  then show ?thesis
    by (simp add: polynomial_def fixture_double_def fixture_poly_def)
qed

lemma antiderivative_near:
  assumes R: "rounds_within rounding_bound A val"
    and x: "near val 0 x r" and rng: "r = 0 \<or> r = 10"
  shows "near val 7 (polynomialAntiderivative A (fixture_double A) x)
           (r ^ 5 / 5 + r ^ 4 / 2 + r ^ 3 + r ^ 2 * 2 + 5 * r)"
proof -
  have c1: "near val 0 (fnum A 1) 1" by (rule near_num [OF R]) simp_all
  have c2: "near val 0 (fnum A 2) 2" by (rule near_num [OF R]) simp_all
  have c3: "near val 0 (fnum A 3) 3" by (rule near_num [OF R]) simp_all
  have c4: "near val 0 (fnum A 4) 4" by (rule near_num [OF R]) simp_all
  have c5: "near val 0 (fnum A 5) 5" by (rule near_num [OF R]) simp_all
  have d1: "near val 1 (fdiv A (fnum A 1) (fnum A 5)) (1 / 5)"
    by (rule near_div_num [OF R c1]) (simp_all add: ok_def)
  have d2: "near val 1 (fdiv A (fnum A 2) (fnum A 4)) (1 / 2)"
    by (rule near_div_num [OF R c2]) (simp_all add: ok_def)
  have d3: "near val 1 (fdiv A (fnum A 3) (fnum A 3)) 1"
    by (rule near_div_num [OF R c3]) (simp_all add: ok_def)
  have d4: "near val 1 (fdiv A (fnum A 4) (fnum A 2)) 2"
    by (rule near_div_num [OF R c4]) (simp_all add: ok_def)
  have p5: "near val 1 (fpow A x 5) (r ^ 5)"
    using rng by (intro near_pow [OF R x]) (auto simp: ok_def)
  have p4: "near val 1 (fpow A x 4) (r ^ 4)"
    using rng by (intro near_pow [OF R x]) (auto simp: ok_def)
  have p3: "near val 1 (fpow A x 3) (r ^ 3)"
    using rng by (intro near_pow [OF R x]) (auto simp: ok_def)
  have p2: "near val 1 (fpow A x 2) (r ^ 2)"
    using rng by (intro near_pow [OF R x]) (auto simp: ok_def)
  let ?t1 = "fmul A (fdiv A (fnum A 1) (fnum A 5)) (fpow A x 5)"
  let ?t2 = "fmul A (fdiv A (fnum A 2) (fnum A 4)) (fpow A x 4)"
  let ?t3 = "fmul A (fdiv A (fnum A 3) (fnum A 3)) (fpow A x 3)"
  let ?t4 = "fmul A (fdiv A (fnum A 4) (fnum A 2)) (fpow A x 2)"
  let ?t5 = "fmul A (fnum A 5) x"
  have t1: "near val 3 ?t1 (r ^ 5 / 5)"
    using rng by (intro near_mul [OF R d1 p5]) (auto simp: ok_def)
  have t2: "near val 3 ?t2 (r ^ 4 / 2)"
    using rng by (intro near_mul [OF R d2 p4]) (auto simp: ok_def)
  have t3: "near val 3 ?t3 (r ^ 3)"
    using rng by (intro near_mul [OF R d3 p3]) (auto simp: ok_def)
  have t4: "near val 3 ?t4 (r ^ 2 * 2)"
    using rng by (intro near_mul [OF R d4 p2]) (auto simp: ok_def)
  have t5: "near val 3 ?t5 (5 * r)"
    using rng by (intro near_mul [OF R c5 x]) (auto simp: ok_def)
  have s1: "near val 4 (fadd A ?t1 ?t2) (r ^ 5 / 5 + r ^ 4 / 2)"
    using rng by (intro near_add [OF R t1 t2]) (auto simp: ok_def)
  have s2: "near val 5 (fadd A (fadd A ?t1 ?t2) ?t3) (r ^ 5 / 5 + r ^ 4 / 2 + r ^ 3)"
    using rng by (intro near_add [OF R s1 t3]) (auto simp: ok_def)
  have s3: "near val 6 (fadd A (fadd A (fadd A ?t1 ?t2) ?t3) ?t4)
              (r ^ 5 / 5 + r ^ 4 / 2 + r ^ 3 + r ^ 2 * 2)"
    using rng by (intro near_add [OF R s2 t4]) (auto simp: ok_def)
  have s4: "near val 7 (fadd A (fadd A (fadd A (fadd A ?t1 ?t2) ?t3) ?t4) ?t5)
              (r ^ 5 / 5 + r ^ 4 / 2 + r ^ 3 + r ^ 2 * 2 + 5 * r)"
    using rng by (intro near_add [OF R s3 t5]) (auto simp: ok_def)
  then show ?thesis
    by (simp add: polynomialAntiderivative_def fixture_double_def)
qed

lemma symbolicIntegration_near:
  assumes R: "rounds_within rounding_bound A val"
  shows "near val 8 (symbolicIntegration A (fixture_double A) (fnum A 0) (fnum A 10)) 26250"
proof -
  have z: "near val 0 (fnum A 0) 0" by (rule near_num [OF R]) simp_all
  have t: "near val 0 (fnum A 10) 10" by (rule near_num [OF R]) simp_all
  have F0: "near val 7 (polynomialAntiderivative A (fixture_double A) (fnum A 0)) 0"
    using antiderivative_near [OF R z] by simp
  have F10: "near val 7 (polynomialAntiderivative A (fixture_double A) (fnum A 10)) 26250"
    using antiderivative_near [OF R t] by simp
  show ?thesis
    unfolding symbolicIntegration_def Let_def
    by (rule near_sub_zero [OF R F10 F0]) (simp_all add: ok_def)
qed

lemma fixture_poly_bounds:
  assumes "0 \<le> r" "r \<le> 10"
  shows "5 \<le> fixture_poly r" "fixture_poly r \<le> 12345"
proof -
  have h: "r ^ n \<le> 10 ^ n" for n
    using assms by (intro power_mono) simp_all
  show "5 \<le> fixture_poly r"
    using assms by (simp add: fixture_poly_def)
  show "fixture_poly r \<le> 12345"
    using h [of 2] h [of 3] h [of 4] assms by (simp add: fixture_poly_def)
qed

lemma sum_head_int:
  fixes f :: "int \<Rightarrow> real"
  assumes "i \<le> n"
  shows "(\<Sum>j = i..n. f j) = f i + (\<Sum>j = i + 1..n. f j)"
proof -
  have "{i..n} = insert i {i + 1..n}"
    using assms by auto
  then show ?thesis by simp
qed

lemma trapezoid_loop_near:
  assumes R: "rounds_within rounding_bound A val"
    and H: "near val 2 h (1 / 100)" and Z: "near val 0 x0 0"
  shows "1 \<le> i \<Longrightarrow> i \<le> 1000 \<Longrightarrow> near val (24 + nat i) integral s
     \<Longrightarrow> s \<le> 12345 * of_int i
     \<Longrightarrow> near val 1024 (trapezoid_loop A (fixture_double A) x0 h 1000 i integral)
           (s + (\<Sum>j = i..999. fixture_poly (of_int j / 100)))"
proof (induction "nat (1000 - i)" arbitrary: i integral s)
  case 0
  then have i: "i = 1000" by simp
  have "trapezoid_loop A (fixture_double A) x0 h 1000 i integral = integral"
    by (subst trapezoid_loop.simps) (simp add: i)
  moreover have "near val 1024 integral s"
    using "0.prems"(3) by (simp add: i)
  ultimately show ?case by (simp add: i)
next
  case (Suc m)
  then have i: "1 \<le> i" "i < 1000" by simp_all
  let ?r = "of_int i / 100 :: real"
  let ?x = "fadd A x0 (fmul A (fnum A i) h)"
  let ?acc = "fadd A integral (polynomial A (fixture_double A) ?x)"
  have rb: "1 / 100 \<le> ?r" "?r \<le> 10"
    using i by simp_all
  have ci: "near val 0 (fnum A i) (of_int i)"
    using i by (intro near_num [OF R]) simp_all
  have m: "near val 3 (fmul A (fnum A i) h) ?r"
    using rb by (intro near_mul [OF R ci H]) (simp_all add: ok_def)
  have x: "near val 4 ?x ?r"
    using rb by (intro near_add [OF R Z m]) (simp_all add: ok_def)
  have p: "near val 22 (polynomial A (fixture_double A) ?x) (fixture_poly ?r)"
    using rb by (intro polynomial_near [OF R x]) (simp add: rng_def)
  have fb: "5 \<le> fixture_poly ?r" "fixture_poly ?r \<le> 12345"
    using rb by (intro fixture_poly_bounds; simp)+
  have s0: "0 \<le> s"
    using Suc.prems(3) by (simp add: near_def)
  have sb: "s + fixture_poly ?r \<le> 12345 * of_int (i + 1)"
    using Suc.prems(4) fb by simp
  have ni: "nat (i + 1) = Suc (nat i)"
    using i by simp
  have acc: "near val (24 + nat (i + 1)) ?acc (s + fixture_poly ?r)"
  proof (rule near_add [OF R Suc.prems(3) p])
    show "24 + nat i < 24 + nat (i + 1)" by (simp add: ni)
    show "22 < 24 + nat (i + 1)" by simp
    show "24 + nat (i + 1) \<le> 2000" using i by simp
    have "s + fixture_poly ?r \<le> 12345 * 1000"
      using sb i by simp
    then show "ok (s + fixture_poly ?r)"
      using s0 fb by (simp add: ok_def)
  qed simp
  have "m = nat (1000 - (i + 1))"
    using Suc.hyps(2) by simp
  from Suc.hyps(1) [OF this _ _ acc sb] i
  have "near val 1024 (trapezoid_loop A (fixture_double A) x0 h 1000 (i + 1) ?acc)
          (s + fixture_poly ?r + (\<Sum>j = i + 1..999. fixture_poly (of_int j / 100)))"
    by simp
  moreover have "trapezoid_loop A (fixture_double A) x0 h 1000 i integral =
      trapezoid_loop A (fixture_double A) x0 h 1000 (i + 1) ?acc"
    using i by (subst trapezoid_loop.simps) (simp add: Let_def)
  moreover have "(\<Sum>j = i..999. fixture_poly (of_int j / 100)) =
      fixture_poly ?r + (\<Sum>j = i + 1..999. fixture_poly (of_int j / 100))"
    using i by (intro sum_head_int) simp
  ultimately show ?case by (simp add: add.assoc)
qed

lemma fixture_poly_sum:
  "(\<Sum>j = 1..999. fixture_poly (of_int j / 100)) = 2618828883333 / 1000000"
  using fixture_sum_999 by (simp add: polynomial_exact fixture_double_def fixture_poly_def)

lemma trapezoidalIntegration_near:
  assumes R: "rounds_within rounding_bound A val"
  shows "near val 1027
           (trapezoidalIntegration A (fixture_double A) (fnum A 0) (fnum A 10)
              default_num_intervals)
           (2625003883333 / 100000000)"
proof -
  let ?p = "fixture_double A"
  let ?h = "fdiv A (fsub A (fnum A 10) (fnum A 0)) (fnum A 1000)"
  let ?i1 = "fadd A (fnum A 0) (fdiv A (polynomial A ?p (fnum A 0)) (fnum A 2))"
  let ?i2 = "fadd A ?i1 (fdiv A (polynomial A ?p (fnum A 10)) (fnum A 2))"
  let ?i3 = "trapezoid_loop A ?p (fnum A 0) ?h 1000 1 ?i2"
  have z: "near val 0 (fnum A 0) 0" by (rule near_num [OF R]) simp_all
  have t: "near val 0 (fnum A 10) 10" by (rule near_num [OF R]) simp_all
  have d: "near val 1 (fsub A (fnum A 10) (fnum A 0)) 10"
    by (rule near_sub_zero [OF R t z]) (simp_all add: ok_def)
  have h: "near val 2 ?h (1 / 100)"
    by (rule near_div_num [OF R d]) (simp_all add: ok_def)
  have p0: "near val 22 (polynomial A ?p (fnum A 0)) 5"
    using polynomial_near [OF R near_num [OF R, of 0 0 4]]
    by (simp add: rng_def fixture_poly_def)
  have p10: "near val 22 (polynomial A ?p (fnum A 10)) 12345"
    using polynomial_near [OF R near_num [OF R, of 10 10 4]]
    by (simp add: rng_def fixture_poly_def)
  have d0: "near val 23 (fdiv A (polynomial A ?p (fnum A 0)) (fnum A 2)) (5 / 2)"
    by (rule near_div_num [OF R p0]) (simp_all add: ok_def)
  have d10: "near val 23 (fdiv A (polynomial A ?p (fnum A 10)) (fnum A 2)) (12345 / 2)"
    by (rule near_div_num [OF R p10]) (simp_all add: ok_def)
  have i1: "near val 24 ?i1 (5 / 2)"
    by (rule near_add [OF R z d0]) (simp_all add: ok_def)
  have i2: "near val 25 ?i2 6175"
    by (rule near_add [OF R i1 d10]) (simp_all add: ok_def)
  have "near val 1024 ?i3 (6175 + (\<Sum>j = 1..999. fixture_poly (of_int j / 100)))"
    using i2 by (intro trapezoid_loop_near [OF R h z]) simp_all
  then have i3: "near val 1024 ?i3 (2625003883333 / 1000000)"
    by (simp add: fixture_poly_sum)
  have "near val 1027 (fmul A ?i3 ?h) (2625003883333 / 100000000)"
    by (rule near_mul [OF R i3 h]) (simp_all add: ok_def)
  then show ?thesis
    by (simp add: trapezoidalIntegration_def default_num_intervals_def Let_def)
qed

lemma near_abs:
  assumes "near val k x r" "of_nat k * rounding_bound \<le> 1 / 2"
  shows "\<exists>y. val x = Some y \<and> \<bar>y - r\<bar> \<le> 2 * of_nat k * rounding_bound * r"
proof -
  from assms(1) obtain y where r: "0 \<le> r" and y: "val x = Some y"
    and l: "r * (1 - rounding_bound) ^ k \<le> y" and h: "y \<le> r * (1 + rounding_bound) ^ k"
    by (auto simp: near_def)
  have e: "0 < rounding_bound" by (rule rb_bounds)
  have "r * (1 - of_nat k * rounding_bound) \<le> r * (1 - rounding_bound) ^ k"
    using r lo_ge [of k] by (intro mult_left_mono)
  then have l': "r - of_nat k * rounding_bound * r \<le> y"
    using l by (simp add: algebra_simps)
  have "r * (1 + rounding_bound) ^ k \<le> r * (1 + 2 * of_nat k * rounding_bound)"
    using r hi_le [OF assms(2)] by (intro mult_left_mono)
  then have h': "y \<le> r + 2 * of_nat k * rounding_bound * r"
    using h by (simp add: algebra_simps)
  have "0 \<le> of_nat k * rounding_bound * r"
    using r e by simp
  with l' h' have "\<bar>y - r\<bar> \<le> 2 * of_nat k * rounding_bound * r"
    by (simp add: abs_le_iff algebra_simps)
  with y show ?thesis by blast
qed

lemma trapezoid_rounded:
  assumes R: "rounds_within rounding_bound A val"
  shows "\<exists>t. val (trapezoidalIntegration A (fixture_double A) (fnum A 0) (fnum A 10)
                default_num_intervals) = Some t
           \<and> \<bar>t - 2625003883333 / 100000000\<bar> \<le> 1 / 10000"
proof -
  have "of_nat 1027 * rounding_bound \<le> 1 / 2"
    by (rule order_trans [OF rb_small]) simp_all
  from near_abs [OF trapezoidalIntegration_near [OF R] this]
  obtain t where t: "val (trapezoidalIntegration A (fixture_double A) (fnum A 0) (fnum A 10)
                default_num_intervals) = Some t"
    and b: "\<bar>t - 2625003883333 / 100000000\<bar>
              \<le> 2 * of_nat 1027 * rounding_bound * (2625003883333 / 100000000)"
    by blast
  have "2 * of_nat 1027 * rounding_bound * (2625003883333 / 100000000) \<le> 1 / 10000"
    by (simp add: rounding_bound_def)
  with t b show ?thesis by force
qed

lemma symbolic_rounded:
  assumes R: "rounds_within rounding_bound A val"
  shows "\<exists>s. val (symbolicIntegration A (fixture_double A) (fnum A 0) (fnum A 10)) = Some s
           \<and> \<bar>s - 26250\<bar> \<le> 1 / 1000000"
proof -
  have "of_nat 8 * rounding_bound \<le> 1 / 2"
    by (rule order_trans [OF rb_small]) simp_all
  from near_abs [OF symbolicIntegration_near [OF R] this]
  obtain s where s: "val (symbolicIntegration A (fixture_double A) (fnum A 0) (fnum A 10)) = Some s"
    and b: "\<bar>s - 26250\<bar> \<le> 2 * of_nat 8 * rounding_bound * 26250"
    by blast
  have "2 * of_nat 8 * rounding_bound * 26250 \<le> 1 / 1000000"
    by (simp add: rounding_bound_def)
  with s b show ?thesis by force
qed

lemma skewed_rounds: "rounds_within rounding_bound skewed Some"
proof -
  have e: "0 < rounding_bound" by (rule rb_bounds)
  have k: "\<bar>c * (1 + rounding_bound) - c\<bar> \<le> rounding_bound * \<bar>c\<bar>" for c :: real
    using e by (simp add: algebra_simps abs_mult)
  have d: "\<bar>x * (1 + rounding_bound) / y - x / y\<bar> \<le> rounding_bound * \<bar>x\<bar> / \<bar>y\<bar>"
    for x y :: real
    using k [of "x / y"] by simp
  show ?thesis
    by (simp add: rounds_within_def skewed_def k d)
qed

text \<open>
  C2, as stated, fails for the trapezoidal sketch: in no arithmetic that rounds within
  \<open>2^-40\<close>, so not in the doubles, is its value on the fixture with the default 1000
  intervals within \<open>10^-6\<close> of 26250.
\<close>

theorem trapezoid_fixture_counterexample:
  "\<not> (\<exists>(A :: 'a arith) val t. rounds_within rounding_bound A val
        \<and> val (trapezoidalIntegration A (fixture_double A) (fnum A 0) (fnum A 10)
                 default_num_intervals) = Some t
        \<and> \<bar>t - 26250\<bar> \<le> 1 / 1000000)"
proof -
  have "\<not> \<bar>t - 26250\<bar> \<le> 1 / 1000000"
    if R: "rounds_within rounding_bound A val"
      and t: "val (trapezoidalIntegration A (fixture_double A) (fnum A 0) (fnum A 10)
                 default_num_intervals) = Some t"
    for A :: "'a arith" and val t
  proof -
    from trapezoid_rounded [OF R] t have "\<bar>t - 2625003883333 / 100000000\<bar> \<le> 1 / 10000"
      by simp
    then show ?thesis by linarith
  qed
  then show ?thesis by blast
qed

text \<open>
  C2, amended. On the fixture, from 0 to 10, in every arithmetic that rounds within
  \<open>2^-40\<close> (the doubles do): the exact antiderivative gives a finite value within
  \<open>10^-6\<close> of 26250; the trapezoid rule with 1000 intervals gives a finite value within
  \<open>10^-4\<close> of 26250.03883333, the value of the rule without rounding, so further than
  \<open>10^-6\<close> from 26250 and within 0.04 of it. The integer integration with arithmetic
  accumulation gives the integer 26250.
\<close>

theorem fixture_results:
  assumes "rounds_within rounding_bound A val"
  shows "\<exists>s t. val (symbolicIntegration A (fixture_double A) (fnum A 0) (fnum A 10)) = Some s
           \<and> \<bar>s - 26250\<bar> \<le> 1 / 1000000
           \<and> integratePolynomial fixture 0 10 = 26250
           \<and> val (trapezoidalIntegration A (fixture_double A) (fnum A 0) (fnum A 10)
                    default_num_intervals) = Some t
           \<and> \<bar>t - 2625003883333 / 100000000\<bar> \<le> 1 / 10000
           \<and> 1 / 1000000 < \<bar>t - 26250\<bar> \<and> \<bar>t - 26250\<bar> < 4 / 100"
proof -
  from symbolic_rounded [OF assms] obtain s
    where s: "val (symbolicIntegration A (fixture_double A) (fnum A 0) (fnum A 10)) = Some s"
      "\<bar>s - 26250\<bar> \<le> 1 / 1000000"
    by blast
  from trapezoid_rounded [OF assms] obtain t
    where t: "val (trapezoidalIntegration A (fixture_double A) (fnum A 0) (fnum A 10)
                default_num_intervals) = Some t"
      "\<bar>t - 2625003883333 / 100000000\<bar> \<le> 1 / 10000"
    by blast
  from t(2) have "1 / 1000000 < \<bar>t - 26250\<bar>" "\<bar>t - 26250\<bar> < 4 / 100"
    by linarith+
  with s t integratePolynomial_fixture show ?thesis by blast
qed

theorem fixture_results_witness:
  "rounds_within rounding_bound skewed Some
   \<and> \<bar>symbolicIntegration skewed (fixture_double skewed) 0 10 - 26250\<bar> \<le> 1 / 1000000
   \<and> 1 / 1000000 < \<bar>trapezoidalIntegration skewed (fixture_double skewed) 0 10
                        default_num_intervals - 26250\<bar>
   \<and> \<bar>trapezoidalIntegration skewed (fixture_double skewed) 0 10
        default_num_intervals - 26250\<bar> < 4 / 100"
proof -
  have n: "fnum skewed 0 = 0" "fnum skewed 10 = 10"
    by (simp_all add: skewed_def)
  show ?thesis
    using skewed_rounds fixture_results [OF skewed_rounds] by (simp add: n)
qed

end
